theory Spec2Isabelle
  imports Complex_Main "HOL-Library.Multiset"
begin

section \<open>The evaluation and matching engine of the extraction service\<close>

text \<open>
  A shallow embedding of \<^verbatim>\<open>ml-service/eval_runner.py\<close> (text, date and amount
  normalisation, the fuzzy matcher, the transaction matcher, the metrics aggregator)
  and of \<^verbatim>\<open>append_history\<close> in \<^verbatim>\<open>ml-service/scripts/update_benchmark_snapshot.py\<close>.

  Modelling conventions.
  \<^item> A Python \<^verbatim>\<open>float\<close> is an exact real number; rounding of IEEE doubles, NaN and
    signed zeros are not modelled. The one infinity the code creates, the sentinel
    \<^verbatim>\<open>float('inf')\<close> of the amount error, is the constructor \<open>PInf\<close> of \<open>pyfloat\<close>.
  \<^item> A Python \<^verbatim>\<open>str\<close> is a list of code points below 256 (Isabelle's \<open>char\<close>); the
    character classes of \<^verbatim>\<open>str.lower\<close>, \<^verbatim>\<open>str.strip\<close>, \<^verbatim>\<open>\s\<close>, \<^verbatim>\<open>\w\<close> and \<^verbatim>\<open>\d\<close>
    are the Unicode ones restricted to that range.
  \<^item> A transaction is a JSON object, an association list from keys to JSON values.
  \<^item> An exception that leaves a function is the left summand of its result type.
\<close>

subsection \<open>JSON values, dictionaries and exceptions\<close>

datatype jvalue =
    JNull
  | JBool bool
  | JNum real
  | JStr string
  | JArr "jvalue list"
  | JObj "(string \<times> jvalue) list"

type_synonym txn = "(string \<times> jvalue) list"

datatype py_error = AttributeError | ZeroDivisionError

text \<open>Python's \<^verbatim>\<open>d.get(key, default)\<close>.\<close>

definition dict_get :: "txn \<Rightarrow> string \<Rightarrow> jvalue \<Rightarrow> jvalue" where
  "dict_get d k dflt = (case map_of d k of None \<Rightarrow> dflt | Some v \<Rightarrow> v)"

text \<open>Python's truth value of an object, as \<^verbatim>\<open>if not x\<close> reads it.\<close>

fun truthy :: "jvalue \<Rightarrow> bool" where
  "truthy JNull = False"
| "truthy (JBool b) = b"
| "truthy (JNum r) = (r \<noteq> 0)"
| "truthy (JStr s) = (s \<noteq> [])"
| "truthy (JArr xs) = (xs \<noteq> [])"
| "truthy (JObj kvs) = (kvs \<noteq> [])"

text \<open>
  The values the text and date normalisers are written for: a string, or a value that
  counts as false (null above all). On any other value \<^verbatim>\<open>date_str.strip()\<close> and
  \<^verbatim>\<open>text.lower()\<close> raise \<^verbatim>\<open>AttributeError\<close>.
\<close>

fun text_like :: "jvalue \<Rightarrow> bool" where
  "text_like (JStr s) = True"
| "text_like v = (\<not> truthy v)"

text \<open>Sequencing of computations that may raise.\<close>

definition then_do :: "py_error + 'a \<Rightarrow> ('a \<Rightarrow> py_error + 'b) \<Rightarrow> py_error + 'b" where
  "then_do m f = (case m of Inl e \<Rightarrow> Inl e | Inr x \<Rightarrow> f x)"

subsection \<open>Characters and strings\<close>

definition code_point :: "char \<Rightarrow> nat" where
  "code_point c = of_char c"

text \<open>\<^verbatim>\<open>str.isspace\<close>, which is also \<^verbatim>\<open>\s\<close> of a Unicode pattern.\<close>

definition isspace :: "char \<Rightarrow> bool" where
  "isspace c =
     (let n = code_point c
      in (9 \<le> n \<and> n \<le> 13) \<or> (28 \<le> n \<and> n \<le> 32) \<or> n = 133 \<or> n = 160)"

text \<open>\<^verbatim>\<open>\d\<close>: the decimal digits (below 256 only the ASCII ones).\<close>

definition isdigit :: "char \<Rightarrow> bool" where
  "isdigit c = (let n = code_point c in 48 \<le> n \<and> n \<le> 57)"

text \<open>\<^verbatim>\<open>\w\<close>: alphanumeric characters and the underscore.\<close>

definition isword :: "char \<Rightarrow> bool" where
  "isword c =
     (let n = code_point c
      in (48 \<le> n \<and> n \<le> 57) \<or> (65 \<le> n \<and> n \<le> 90) \<or> n = 95 \<or> (97 \<le> n \<and> n \<le> 122)
         \<or> n = 170 \<or> n = 178 \<or> n = 179 \<or> n = 181 \<or> n = 185 \<or> n = 186
         \<or> (188 \<le> n \<and> n \<le> 190) \<or> (192 \<le> n \<and> n \<le> 214) \<or> (216 \<le> n \<and> n \<le> 246)
         \<or> 248 \<le> n)"

definition char_lower :: "char \<Rightarrow> char" where
  "char_lower c =
     (let n = code_point c
      in if (65 \<le> n \<and> n \<le> 90) \<or> (192 \<le> n \<and> n \<le> 222 \<and> n \<noteq> 215)
         then char_of (n + 32) else c)"

definition lower :: "string \<Rightarrow> string" where
  "lower s = map char_lower s"

definition strip :: "string \<Rightarrow> string" where
  "strip s = rev (dropWhile isspace (rev (dropWhile isspace s)))"

text \<open>\<^verbatim>\<open>re.sub(r'\s+', ' ', text)\<close>: every maximal run of whitespace becomes one space.\<close>

function collapse_whitespace :: "string \<Rightarrow> string" where
  "collapse_whitespace [] = []"
| "collapse_whitespace (c # cs) =
     (if isspace c then CHR '' '' # collapse_whitespace (dropWhile isspace cs)
      else c # collapse_whitespace cs)"
  by pat_completeness auto
termination
  by (relation "measure length") (auto simp: length_dropWhile_le less_Suc_eq_le)

text \<open>\<^verbatim>\<open>re.sub(r'[^\w\s]', '', text)\<close>.\<close>

definition remove_punctuation :: "string \<Rightarrow> string" where
  "remove_punctuation s = filter (\<lambda>c. isword c \<or> isspace c) s"

text \<open>\<^verbatim>\<open>s.split()\<close>: the maximal runs of non-whitespace characters.\<close>

function split_ws :: "string \<Rightarrow> string list" where
  "split_ws [] = []"
| "split_ws (c # cs) =
     (if isspace c then split_ws cs
      else (c # takeWhile (\<lambda>x. \<not> isspace x) cs) # split_ws (dropWhile (\<lambda>x. \<not> isspace x) cs))"
  by pat_completeness auto
termination
  by (relation "measure length") (auto simp: length_dropWhile_le less_Suc_eq_le)

text \<open>\<^verbatim>\<open>a in b\<close> on strings: \<open>a\<close> occurs in \<open>b\<close> as a contiguous block.\<close>

fun starts_with :: "string \<Rightarrow> string \<Rightarrow> bool" where
  "starts_with [] t = True"
| "starts_with (a # as) [] = False"
| "starts_with (a # as) (b # bs) = (a = b \<and> starts_with as bs)"

fun str_in :: "string \<Rightarrow> string \<Rightarrow> bool" where
  "str_in a [] = (a = [])"
| "str_in a (b # bs) = (starts_with a (b # bs) \<or> str_in a bs)"

subsection \<open>Text normaliser and fuzzy matcher\<close>

definition normalize_text :: "jvalue \<Rightarrow> py_error + string" where
  "normalize_text text =
     (if \<not> truthy text then Inr []
      else case text of
        JStr s \<Rightarrow> Inr (remove_punctuation (collapse_whitespace (strip (lower s))))
      | _ \<Rightarrow> Inl AttributeError)"

definition fuzzy_match_score :: "jvalue \<Rightarrow> jvalue \<Rightarrow> py_error + real" where
  "fuzzy_match_score pred truth =
     then_do (normalize_text pred) (\<lambda>pred.
     then_do (normalize_text truth) (\<lambda>truth.
       if pred = [] \<or> truth = [] then Inr 0.0
       else if pred = truth then Inr 1.0
       else if str_in pred truth \<or> str_in truth pred then Inr 0.9
       else
         let pred_tokens = set (split_ws pred);
             truth_tokens = set (split_ws truth)
         in if pred_tokens = {} \<or> truth_tokens = {} then Inr 0.0
            else Inr (real (card (pred_tokens \<inter> truth_tokens))
                        / real (card (pred_tokens \<union> truth_tokens)))))"

subsection \<open>The fuzzy matcher as the specification words it\<close>

text \<open>
  The reference the fuzzy matcher is compared with, written from the words of the
  specification (section 4.4) and not from the code: on two normalised strings the score
  is 0.0 if either is empty, 1.0 if they are equal, 0.9 if one is a substring of the
  other, and otherwise the Jaccard similarity of their sets of whitespace-delimited
  tokens, intersection size over union size, 0.0 if either set is empty. A substring is
  a contiguous part; a token is a non-empty block without whitespace that is bounded on
  each side by whitespace or by an end of the string.
\<close>

definition is_substring :: "string \<Rightarrow> string \<Rightarrow> bool" where
  "is_substring a b = (\<exists>u v. b = u @ a @ v)"

definition token_set :: "string \<Rightarrow> string set" where
  "token_set s =
     {t. t \<noteq> [] \<and> (\<forall>c \<in> set t. \<not> isspace c)
         \<and> (\<exists>u v. s = u @ t @ v \<and> (u = [] \<or> isspace (last u)) \<and> (v = [] \<or> isspace (hd v)))}"

definition jaccard :: "string set \<Rightarrow> string set \<Rightarrow> real" where
  "jaccard A B = real (card (A \<inter> B)) / real (card (A \<union> B))"

definition fuzzy_reference :: "string \<Rightarrow> string \<Rightarrow> real" where
  "fuzzy_reference a b =
     (if a = [] \<or> b = [] then 0.0
      else if a = b then 1.0
      else if is_substring a b \<or> is_substring b a then 0.9
      else if token_set a = {} \<or> token_set b = {} then 0.0
      else jaccard (token_set a) (token_set b))"

subsection \<open>Date normaliser\<close>

text \<open>
  \<^verbatim>\<open>datetime.strptime\<close> and \<^verbatim>\<open>strftime\<close> are library code. They are modelled for the
  directives the seven formats use, in the C locale: \<^verbatim>\<open>strptime\<close> turns the format into
  a regular expression (each directive a group of alternatives, a blank of the format
  \<^verbatim>\<open>\s+\<close>), matches it case-insensitively at the start of the string, refuses a match
  that leaves text unconverted, and builds the date, which must exist in the calendar.
  A \<^verbatim>\<open>ValueError\<close> is the value \<open>None\<close>.
\<close>

datatype directive =
    Year4        \<comment> \<open>\<^verbatim>\<open>%Y\<close>\<close>
  | MonthNum     \<comment> \<open>\<^verbatim>\<open>%m\<close>\<close>
  | DayNum       \<comment> \<open>\<^verbatim>\<open>%d\<close>\<close>
  | MonthAbbr    \<comment> \<open>\<^verbatim>\<open>%b\<close>\<close>
  | MonthFull    \<comment> \<open>\<^verbatim>\<open>%B\<close>\<close>
  | Lit char     \<comment> \<open>a character of the format that stands for itself\<close>
  | Blank        \<comment> \<open>whitespace of the format\<close>

record date =
  year :: nat
  month :: nat
  day :: nat

definition in_range :: "char \<Rightarrow> char \<Rightarrow> char \<Rightarrow> bool" where
  "in_range lo hi c = (code_point lo \<le> code_point c \<and> code_point c \<le> code_point hi)"

definition same_letter :: "char \<Rightarrow> char \<Rightarrow> bool" where
  "same_letter p c = (char_lower c = char_lower p)"

definition a_month :: "string list" where
  "a_month = [''jan'', ''feb'', ''mar'', ''apr'', ''may'', ''jun'',
              ''jul'', ''aug'', ''sep'', ''oct'', ''nov'', ''dec'']"

definition f_month :: "string list" where
  "f_month = [''january'', ''february'', ''march'', ''april'', ''may'', ''june'',
              ''july'', ''august'', ''september'', ''october'', ''november'', ''december'']"

text \<open>
  The alternatives of a directive's group, in the order the regular expression tries
  them; an alternative is one character class per position. Month names are tried
  longest first, as \<^verbatim>\<open>_strptime\<close> sorts them.
\<close>

fun alternatives :: "directive \<Rightarrow> (char \<Rightarrow> bool) list list" where
  "alternatives Year4 = [[isdigit, isdigit, isdigit, isdigit]]"
| "alternatives MonthNum =
     [[in_range CHR ''1'' CHR ''1'', in_range CHR ''0'' CHR ''2''],
      [in_range CHR ''0'' CHR ''0'', in_range CHR ''1'' CHR ''9''],
      [in_range CHR ''1'' CHR ''9'']]"
| "alternatives DayNum =
     [[in_range CHR ''3'' CHR ''3'', in_range CHR ''0'' CHR ''1''],
      [in_range CHR ''1'' CHR ''2'', isdigit],
      [in_range CHR ''0'' CHR ''0'', in_range CHR ''1'' CHR ''9''],
      [in_range CHR ''1'' CHR ''9''],
      [in_range CHR '' '' CHR '' '', in_range CHR ''1'' CHR ''9'']]"
| "alternatives MonthAbbr = map (map same_letter) (rev (sort_key length (rev a_month)))"
| "alternatives MonthFull = map (map same_letter) (rev (sort_key length (rev f_month)))"
| "alternatives (Lit c) = [[same_letter c]]"
| "alternatives Blank = []"

definition match_classes :: "(char \<Rightarrow> bool) list \<Rightarrow> string \<Rightarrow> (string \<times> string) list" where
  "match_classes cls s =
     (if length cls \<le> length s \<and> list_all2 (\<lambda>p c. p c) cls (take (length cls) s)
      then [(take (length cls) s, drop (length cls) s)] else [])"

text \<open>
  The ways one directive matches at the start of \<open>s\<close>, as (matched text, rest), in the
  order backtracking visits them. \<^verbatim>\<open>\s+\<close> is greedy: the longest run first.
\<close>

definition directive_matches :: "directive \<Rightarrow> string \<Rightarrow> (string \<times> string) list" where
  "directive_matches d s =
     (case d of
        Blank \<Rightarrow>
          map (\<lambda>k. (take k s, drop k s)) (rev [1 ..< Suc (length (takeWhile isspace s))])
      | _ \<Rightarrow> concat (map (\<lambda>cls. match_classes cls s) (alternatives d)))"

fun re_match :: "directive list \<Rightarrow> string \<Rightarrow> (string list \<times> string) list" where
  "re_match [] s = [([], s)]"
| "re_match (d # ds) s =
     concat (map (\<lambda>(m, rest). map (\<lambda>(ms, r). (m # ms, r)) (re_match ds rest))
                 (directive_matches d s))"

text \<open>\<^verbatim>\<open>int(s)\<close> on the text of a numeric group (digits, after an optional blank).\<close>

definition int_of_digits :: "string \<Rightarrow> nat" where
  "int_of_digits s = foldl (\<lambda>n c. 10 * n + (code_point c - 48)) 0 (filter isdigit s)"

fun index_of :: "'a \<Rightarrow> 'a list \<Rightarrow> nat" where
  "index_of x [] = 0"
| "index_of x (y # ys) = (if x = y then 0 else Suc (index_of x ys))"

fun set_field :: "directive \<times> string \<Rightarrow> date \<Rightarrow> date" where
  "set_field (Year4, m) dt = dt\<lparr>year := int_of_digits m\<rparr>"
| "set_field (MonthNum, m) dt = dt\<lparr>month := int_of_digits m\<rparr>"
| "set_field (DayNum, m) dt = dt\<lparr>day := int_of_digits m\<rparr>"
| "set_field (MonthAbbr, m) dt = dt\<lparr>month := Suc (index_of (lower m) a_month)\<rparr>"
| "set_field (MonthFull, m) dt = dt\<lparr>month := Suc (index_of (lower m) f_month)\<rparr>"
| "set_field (Lit c, m) dt = dt"
| "set_field (Blank, m) dt = dt"

definition is_leap :: "nat \<Rightarrow> bool" where
  "is_leap y = (y mod 4 = 0 \<and> (y mod 100 \<noteq> 0 \<or> y mod 400 = 0))"

definition days_in_month :: "nat \<Rightarrow> nat \<Rightarrow> nat" where
  "days_in_month y m =
     (if m = 2 then (if is_leap y then 29 else 28)
      else if m = 4 \<or> m = 6 \<or> m = 9 \<or> m = 11 then 30 else 31)"

definition valid_date :: "date \<Rightarrow> bool" where
  "valid_date dt =
     (1 \<le> year dt \<and> year dt \<le> 9999 \<and> 1 \<le> month dt \<and> month dt \<le> 12
      \<and> 1 \<le> day dt \<and> day dt \<le> days_in_month (year dt) (month dt))"

definition strptime :: "string \<Rightarrow> directive list \<Rightarrow> date option" where
  "strptime data_string fmt =
     (case re_match fmt data_string of
        [] \<Rightarrow> None
      | (found, rest) # _ \<Rightarrow>
          if rest \<noteq> [] then None
          else let dt = fold set_field (zip fmt found) \<lparr>year = 1900, month = 1, day = 1\<rparr>
               in if valid_date dt then Some dt else None)"

definition digit_char :: "nat \<Rightarrow> char" where
  "digit_char n = char_of (48 + n mod 10)"

text \<open>
  \<^verbatim>\<open>dt.strftime("%Y-%m-%d")\<close> as Python documents it, the year written with four
  digits. (The C library does the formatting: one that does not pad \<^verbatim>\<open>%Y\<close> prints a
  year below 1000 with fewer digits; from the year 1000 on all agree.)
\<close>

definition strftime :: "date \<Rightarrow> string" where
  "strftime dt =
     [digit_char (year dt div 1000), digit_char (year dt div 100),
      digit_char (year dt div 10), digit_char (year dt), CHR ''-'',
      digit_char (month dt div 10), digit_char (month dt), CHR ''-'',
      digit_char (day dt div 10), digit_char (day dt)]"

definition formats :: "directive list list" where
  "formats =
     [[Year4, Lit CHR ''-'', MonthNum, Lit CHR ''-'', DayNum],
      [DayNum, Lit CHR ''/'', MonthNum, Lit CHR ''/'', Year4],
      [MonthNum, Lit CHR ''/'', DayNum, Lit CHR ''/'', Year4],
      [Year4, Lit CHR ''/'', MonthNum, Lit CHR ''/'', DayNum],
      [DayNum, Lit CHR ''-'', MonthNum, Lit CHR ''-'', Year4],
      [DayNum, Blank, MonthAbbr, Blank, Year4],
      [DayNum, Blank, MonthFull, Blank, Year4]]"

text \<open>The loop over the formats: the first one that parses decides.\<close>

fun try_formats :: "directive list list \<Rightarrow> string \<Rightarrow> date option" where
  "try_formats [] s = None"
| "try_formats (fmt # fmts) s =
     (case strptime s fmt of Some dt \<Rightarrow> Some dt | None \<Rightarrow> try_formats fmts s)"

definition normalize_date :: "jvalue \<Rightarrow> py_error + string option" where
  "normalize_date date_str =
     (if \<not> truthy date_str then Inr None
      else case date_str of
        JStr s \<Rightarrow>
          (case try_formats formats (strip s) of
             Some dt \<Rightarrow> Inr (Some (strftime dt))
           | None \<Rightarrow> Inr (Some s))
      | _ \<Rightarrow> Inl AttributeError)"

text \<open>The shape \<^verbatim>\<open>YYYY-MM-DD\<close>: four digits, two digits and two digits, with hyphens.\<close>

definition is_iso_date :: "string \<Rightarrow> bool" where
  "is_iso_date s =
     (case s of
        [y1, y2, y3, y4, h1, m1, m2, h2, d1, d2] \<Rightarrow>
          list_all isdigit [y1, y2, y3, y4, m1, m2, d1, d2] \<and> h1 = CHR ''-'' \<and> h2 = CHR ''-''
      | _ \<Rightarrow> False)"

subsection \<open>Amount normaliser\<close>

text \<open>
  \<^verbatim>\<open>float(cleaned)\<close> on a string of digits, points and minus signs: an optional sign,
  then digits with an optional point, at least one digit in all. A \<^verbatim>\<open>ValueError\<close>
  is the value \<open>None\<close>.
\<close>

definition digits_value :: "string \<Rightarrow> real" where
  "digits_value s = real (foldl (\<lambda>n c. 10 * n + (code_point c - 48)) 0 s)"

definition unsigned_float :: "string \<Rightarrow> real option" where
  "unsigned_float s =
     (let ip = takeWhile isdigit s; rest = dropWhile isdigit s
      in case rest of
           [] \<Rightarrow> if ip = [] then None else Some (digits_value ip)
         | c # fp \<Rightarrow>
             if c = CHR ''.'' \<and> list_all isdigit fp \<and> (ip \<noteq> [] \<or> fp \<noteq> [])
             then Some (digits_value ip + digits_value fp / 10 ^ length fp)
             else None)"

definition parse_float :: "string \<Rightarrow> real option" where
  "parse_float s =
     (case s of
        c # cs \<Rightarrow> if c = CHR ''-'' then map_option uminus (unsigned_float cs)
                  else unsigned_float s
      | [] \<Rightarrow> None)"

text \<open>
  A boolean is an \<^verbatim>\<open>int\<close> in Python, so \<^verbatim>\<open>isinstance(amount, (int, float))\<close> holds
  of it.
\<close>

fun normalize_amount :: "jvalue \<Rightarrow> real option" where
  "normalize_amount JNull = None"
| "normalize_amount (JNum r) = Some r"
| "normalize_amount (JBool b) = Some (if b then 1 else 0)"
| "normalize_amount (JStr amount) =
     parse_float (filter (\<lambda>c. isdigit c \<or> c = CHR ''.'' \<or> c = CHR ''-'') amount)"
| "normalize_amount (JArr xs) = None"
| "normalize_amount (JObj kvs) = None"

subsection \<open>Amount reconciliation\<close>

datatype pyfloat = Fin real | PInf

text \<open>
  Lines 195 to 229 of \<^verbatim>\<open>match_transactions\<close>: the cascade that sets \<^verbatim>\<open>amount_match\<close>
  and \<^verbatim>\<open>amount_error\<close> from the two normalised amounts. Every division stands behind
  the guard that makes its divisor non-zero, to the left of an \<^verbatim>\<open>and\<close>.
\<close>

definition amount_reconcile :: "real \<Rightarrow> real option \<Rightarrow> real option \<Rightarrow> bool \<times> pyfloat" where
  "amount_reconcile amount_tolerance_pct pred_amt gt_amt =
     (case (pred_amt, gt_amt) of
        (Some p, Some g) \<Rightarrow>
          let pred_abs = \<bar>p\<bar>; gt_abs = \<bar>g\<bar>; amount_error = \<bar>pred_abs - gt_abs\<bar>
          in if \<bar>pred_abs - gt_abs\<bar> < 0.01 then (True, Fin amount_error)
             else if gt_abs \<noteq> 0 \<and> \<bar>pred_abs - gt_abs\<bar> / gt_abs < amount_tolerance_pct
               then (True, Fin amount_error)
             else if \<bar>pred_abs - gt_abs * 100\<bar> < 0.01
               then (True, Fin \<bar>pred_abs / 100 - gt_abs\<bar>)
             else if \<bar>pred_abs * 100 - gt_abs\<bar> < 0.01
               then (True, Fin \<bar>pred_abs - gt_abs / 100\<bar>)
             else if gt_abs > 1000 \<and> \<bar>pred_abs * 1000 - gt_abs\<bar> / gt_abs < 0.01
               then (True, Fin \<bar>pred_abs - gt_abs / 1000\<bar>)
             else if pred_abs > 1000 \<and> \<bar>pred_abs - gt_abs * 1000\<bar> / pred_abs < 0.01
               then (True, Fin \<bar>pred_abs / 1000 - gt_abs\<bar>)
             else if gt_abs > 100 \<and> pred_abs < 1000
               then (if list_ex (\<lambda>mult. \<bar>pred_abs * mult * 1000 - gt_abs\<bar> / gt_abs < 0.05)
                          [2, 3, 4, 5, 10]
                     then (True, Fin 0) else (False, Fin amount_error))
             else (False, Fin amount_error)
      | _ \<Rightarrow> (False, PInf))"

text \<open>
  The conditions of the cascade's branches, named to state which branch decides: the
  tight absolute rule and the four scale rules (\<open>scale_rules\<close>), the relative rule
  (relative to the ground truth) and the unit-against-total rule.
\<close>

definition scale_rules :: "real \<Rightarrow> real \<Rightarrow> bool" where
  "scale_rules p g =
     (\<bar>\<bar>p\<bar> - \<bar>g\<bar>\<bar> < 0.01
      \<or> \<bar>\<bar>p\<bar> - \<bar>g\<bar> * 100\<bar> < 0.01
      \<or> \<bar>\<bar>p\<bar> * 100 - \<bar>g\<bar>\<bar> < 0.01
      \<or> (\<bar>g\<bar> > 1000 \<and> \<bar>\<bar>p\<bar> * 1000 - \<bar>g\<bar>\<bar> / \<bar>g\<bar> < 0.01)
      \<or> (\<bar>p\<bar> > 1000 \<and> \<bar>\<bar>p\<bar> - \<bar>g\<bar> * 1000\<bar> / \<bar>p\<bar> < 0.01))"

definition relative_rule :: "real \<Rightarrow> real \<Rightarrow> real \<Rightarrow> bool" where
  "relative_rule amount_tolerance_pct p g =
     (\<bar>g\<bar> \<noteq> 0 \<and> \<bar>\<bar>p\<bar> - \<bar>g\<bar>\<bar> / \<bar>g\<bar> < amount_tolerance_pct)"

definition unit_total_rule :: "real \<Rightarrow> real \<Rightarrow> bool" where
  "unit_total_rule p g =
     (\<bar>g\<bar> > 100 \<and> \<bar>p\<bar> < 1000
      \<and> list_ex (\<lambda>mult. \<bar>\<bar>p\<bar> * mult * 1000 - \<bar>g\<bar>\<bar> / \<bar>g\<bar> < 0.05) [2, 3, 4, 5, 10])"

subsection \<open>Transaction matcher\<close>

record transaction_match =
  predicted :: txn
  ground_truth :: "txn option"
  date_match :: bool
  description_match :: real
  amount_match :: bool
  amount_error :: pyfloat

text \<open>The result for a prediction that found no partner (the dataclass defaults).\<close>

definition unmatched :: "txn \<Rightarrow> transaction_match" where
  "unmatched pred =
     \<lparr>predicted = pred, ground_truth = None, date_match = False,
      description_match = 0.0, amount_match = False, amount_error = Fin 0.0\<rparr>"

text \<open>
  The three lookups the matcher makes in a record, the same for a prediction and for a
  ground-truth record: \<^verbatim>\<open>t.get("date", "")\<close>,
  \<^verbatim>\<open>t.get("description", t.get("merchant", ""))\<close> and
  \<^verbatim>\<open>t.get("amount", t.get("total"))\<close>.
\<close>

definition get_date :: "txn \<Rightarrow> jvalue" where
  "get_date t = dict_get t ''date'' (JStr [])"

definition get_description :: "txn \<Rightarrow> jvalue" where
  "get_description t = dict_get t ''description'' (dict_get t ''merchant'' (JStr []))"

definition get_amount :: "txn \<Rightarrow> jvalue" where
  "get_amount t = dict_get t ''amount'' (dict_get t ''total'' JNull)"

text \<open>
  The truth value of an optional string, as \<^verbatim>\<open>pred_date and gt_date\<close> reads it: null
  and the empty string count as false.
\<close>

definition opt_truthy :: "string option \<Rightarrow> bool" where
  "opt_truthy d = (case d of None \<Rightarrow> False | Some s \<Rightarrow> s \<noteq> [])"

text \<open>The composite score of a candidate pair (lines 232 to 236).\<close>

definition composite_score :: "bool \<Rightarrow> real \<Rightarrow> bool \<Rightarrow> real" where
  "composite_score date_eq desc_score amount_eq =
     (if date_eq then 1.0 else 0.0) * 0.3
     + desc_score * 0.4
     + (if amount_eq then 1.0 else 0.0) * 0.3"

text \<open>
  The body of the inner loop for one ground-truth record that is not used yet: the
  candidate result and its composite score.
\<close>

definition candidate ::
  "real \<Rightarrow> txn \<Rightarrow> string option \<Rightarrow> jvalue \<Rightarrow> real option \<Rightarrow> txn
     \<Rightarrow> py_error + (transaction_match \<times> real)" where
  "candidate amount_tolerance_pct pred pred_date pred_desc pred_amt gt =
     then_do (normalize_date (get_date gt)) (\<lambda>gt_date.
       let gt_desc = get_description gt;
           gt_amt = normalize_amount (get_amount gt);
           date_match = (if opt_truthy pred_date \<and> opt_truthy gt_date
                         then pred_date = gt_date else False)
       in then_do (fuzzy_match_score pred_desc gt_desc) (\<lambda>desc_score.
            let (amount_match, amount_error) =
                  amount_reconcile amount_tolerance_pct pred_amt gt_amt;
                score = composite_score date_match desc_score amount_match
            in Inr (\<lparr>predicted = pred, ground_truth = Some gt, date_match = date_match,
                      description_match = desc_score, amount_match = amount_match,
                      amount_error = (if amount_error \<noteq> PInf then amount_error else Fin 0)\<rparr>,
                    score)))"

text \<open>
  The inner loop over \<^verbatim>\<open>enumerate(ground_truth)\<close>. Its state is the best candidate so
  far with its index (\<^verbatim>\<open>best_match\<close>, \<^verbatim>\<open>best_idx\<close>) and \<^verbatim>\<open>best_score\<close>.
\<close>

fun scan_ground_truth ::
  "real \<Rightarrow> txn \<Rightarrow> string option \<Rightarrow> jvalue \<Rightarrow> real option \<Rightarrow> nat set
     \<Rightarrow> (nat \<times> txn) list \<Rightarrow> (transaction_match \<times> nat) option \<times> real
     \<Rightarrow> py_error + ((transaction_match \<times> nat) option \<times> real)" where
  "scan_ground_truth tol pred pred_date pred_desc pred_amt used_gt [] st = Inr st"
| "scan_ground_truth tol pred pred_date pred_desc pred_amt used_gt ((i, gt) # rest)
     (best, best_score) =
     (if i \<in> used_gt
      then scan_ground_truth tol pred pred_date pred_desc pred_amt used_gt rest (best, best_score)
      else then_do (candidate tol pred pred_date pred_desc pred_amt gt) (\<lambda>(m, score).
        if score > best_score \<and> score > 0.5
        then scan_ground_truth tol pred pred_date pred_desc pred_amt used_gt rest
               (Some (m, i), score)
        else scan_ground_truth tol pred pred_date pred_desc pred_amt used_gt rest
               (best, best_score)))"

text \<open>The outer loop over the predictions; its state is \<^verbatim>\<open>matches\<close> and \<^verbatim>\<open>used_gt\<close>.\<close>

fun match_loop ::
  "real \<Rightarrow> txn list \<Rightarrow> txn list \<Rightarrow> transaction_match list \<times> nat set
     \<Rightarrow> py_error + (transaction_match list \<times> nat set)" where
  "match_loop tol gts [] st = Inr st"
| "match_loop tol gts (pred # rest) (matches, used_gt) =
     then_do (normalize_date (get_date pred)) (\<lambda>pred_date.
       let pred_desc = get_description pred;
           pred_amt = normalize_amount (get_amount pred)
       in then_do (scan_ground_truth tol pred pred_date pred_desc pred_amt used_gt
                     (enumerate 0 gts) (None, 0.0)) (\<lambda>(best, best_score).
            case best of
              Some (best_match, best_idx) \<Rightarrow>
                match_loop tol gts rest (matches @ [best_match], insert best_idx used_gt)
            | None \<Rightarrow>
                match_loop tol gts rest (matches @ [unmatched pred], used_gt)))"

text \<open>
  \<^verbatim>\<open>match_transactions\<close> with all four parameters (\<^verbatim>\<open>date_tolerance_days\<close> is never
  read; \<open>preds\<close> and \<open>gts\<close> are the lists \<^verbatim>\<open>predicted\<close> and \<^verbatim>\<open>ground_truth\<close>), and
  with the defaults of the two tolerances, as \<^verbatim>\<open>evaluate_file\<close> calls it.
\<close>

definition match_transactions_with ::
  "txn list \<Rightarrow> txn list \<Rightarrow> int \<Rightarrow> real \<Rightarrow> py_error + transaction_match list" where
  "match_transactions_with preds gts date_tolerance_days amount_tolerance_pct =
     then_do (match_loop amount_tolerance_pct gts preds ([], {}))
       (\<lambda>(matches, used_gt). Inr matches)"

definition match_transactions :: "txn list \<Rightarrow> txn list \<Rightarrow> py_error + transaction_match list" where
  "match_transactions preds gts = match_transactions_with preds gts 1 0.01"

text \<open>
  Records the matcher can read: the date and the description are strings, or values
  that count as false (null, absent, the empty string).
\<close>

definition well_typed :: "txn \<Rightarrow> bool" where
  "well_typed t = (text_like (get_date t) \<and> text_like (get_description t))"

text \<open>The ground-truth records that a list of results holds, with repetitions.\<close>

definition consumed :: "transaction_match list \<Rightarrow> txn list" where
  "consumed ms = concat (map (\<lambda>m. case ground_truth m of None \<Rightarrow> [] | Some g \<Rightarrow> [g]) ms)"

text \<open>
  A result the matcher can emit for the ground truth \<open>gts\<close>: the unmatched result of
  its prediction, or the candidate that the loop body computes from its prediction and
  a ground-truth record, with a composite score above the threshold.
\<close>

definition emitted :: "real \<Rightarrow> txn list \<Rightarrow> transaction_match \<Rightarrow> bool" where
  "emitted tol gts m =
     (m = unmatched (predicted m)
      \<or> (\<exists>gt pd sc. gt \<in> set gts
            \<and> normalize_date (get_date (predicted m)) = Inr pd
            \<and> candidate tol (predicted m) pd (get_description (predicted m))
                  (normalize_amount (get_amount (predicted m))) gt = Inr (m, sc)
            \<and> 0.5 < sc))"

subsection \<open>Metrics aggregator\<close>

record metrics =
  matched_count :: nat
  precision :: real
  recall :: real
  f1 :: real
  date_accuracy :: real
  description_accuracy :: real
  amount_accuracy :: real
  amount_mae :: pyfloat

text \<open>Python's true division, which raises on a zero divisor.\<close>

definition py_div :: "real \<Rightarrow> real \<Rightarrow> py_error + real" where
  "py_div a b = (if b = 0 then Inl ZeroDivisionError else Inr (a / b))"

text \<open>Addition of floats that may be the infinity, and their division by a count.\<close>

fun pf_add :: "pyfloat \<Rightarrow> pyfloat \<Rightarrow> pyfloat" where
  "pf_add (Fin a) (Fin b) = Fin (a + b)"
| "pf_add a b = PInf"

definition pf_sum :: "pyfloat list \<Rightarrow> pyfloat" where
  "pf_sum xs = foldl pf_add (Fin 0) xs"

definition pf_div :: "pyfloat \<Rightarrow> nat \<Rightarrow> py_error + pyfloat" where
  "pf_div a n =
     (if n = 0 then Inl ZeroDivisionError
      else case a of Fin r \<Rightarrow> Inr (Fin (r / real n)) | PInf \<Rightarrow> Inr PInf)"

definition zero_metrics :: metrics where
  "zero_metrics =
     \<lparr>matched_count = 0, precision = 0.0, recall = 0.0, f1 = 0.0, date_accuracy = 0.0,
      description_accuracy = 0.0, amount_accuracy = 0.0, amount_mae = Fin 0.0\<rparr>"

definition compute_metrics :: "transaction_match list \<Rightarrow> int \<Rightarrow> py_error + metrics" where
  "compute_metrics matches ground_truth_count =
     (if matches = [] then Inr zero_metrics
      else
        let matched = filter (\<lambda>m. ground_truth m \<noteq> None) matches;
            matched_count = length matched
        in
        then_do (if matches \<noteq> [] then py_div (real matched_count) (real (length matches))
                 else Inr 0.0) (\<lambda>precision.
        then_do (if ground_truth_count \<noteq> 0
                 then py_div (real matched_count) (of_int ground_truth_count)
                 else Inr 0.0) (\<lambda>recall.
        then_do (if precision + recall > 0
                 then py_div (2 * precision * recall) (precision + recall)
                 else Inr 0.0) (\<lambda>f1.
        then_do (if matched_count \<noteq> 0
                 then py_div (real (length (filter date_match matched))) (real matched_count)
                 else Inr 0.0) (\<lambda>date_acc.
        then_do (if matched_count \<noteq> 0
                 then py_div (sum_list (map description_match matched)) (real matched_count)
                 else Inr 0.0) (\<lambda>desc_acc.
        then_do (if matched_count \<noteq> 0
                 then py_div (real (length (filter amount_match matched))) (real matched_count)
                 else Inr 0.0) (\<lambda>amt_acc.
        then_do (if matched_count \<noteq> 0
                 then pf_div (pf_sum (map amount_error matched)) matched_count
                 else Inr (Fin 0.0)) (\<lambda>amt_mae.
          Inr \<lparr>matched_count = matched_count, precision = precision, recall = recall, f1 = f1,
               date_accuracy = date_acc, description_accuracy = desc_acc,
               amount_accuracy = amt_acc, amount_mae = amt_mae\<rparr>))))))))"

subsection \<open>The history log\<close>

text \<open>
  \<^verbatim>\<open>append_history\<close> reads and writes \<^verbatim>\<open>benchmark-history.json\<close>. The file is a
  parameter and a result: \<open>None\<close> when it does not exist, else the JSON object it
  holds. The clock and \<^verbatim>\<open>get_git_sha()\<close> are inputs, \<open>now\<close> and \<open>sha\<close>.
\<close>

definition load_json :: "txn option \<Rightarrow> txn" where
  "load_json file = (case file of None \<Rightarrow> [] | Some data \<Rightarrow> data)"

text \<open>\<^verbatim>\<open>d[k] = v\<close> on a dictionary.\<close>

fun dict_set :: "txn \<Rightarrow> string \<Rightarrow> jvalue \<Rightarrow> txn" where
  "dict_set [] k v = [(k, v)]"
| "dict_set ((k', v') # d) k v = (if k' = k then (k, v) # d else (k', v') # dict_set d k v)"

definition history_entry :: "txn \<Rightarrow> string \<Rightarrow> string \<Rightarrow> string \<Rightarrow> jvalue" where
  "history_entry new_results run_id now sha =
     JObj [(''run_id'', JStr run_id),
           (''timestamp'', JStr now),
           (''model'', dict_get new_results ''model'' (JStr ''unknown'')),
           (''git_sha'', JStr sha),
           (''results'', dict_get new_results ''results'' (JObj []))]"

definition append_history ::
  "txn option \<Rightarrow> txn \<Rightarrow> string \<Rightarrow> string \<Rightarrow> string \<Rightarrow> py_error + (txn option \<times> txn)" where
  "append_history file new_results run_id now sha =
     (let history = load_json file;
          history = (if map_of history ''runs'' = None then dict_set history ''runs'' (JArr [])
                     else history);
          entry = history_entry new_results run_id now sha
      in case dict_get history ''runs'' JNull of
           JArr runs \<Rightarrow>
             let runs = runs @ [entry];
                 history = dict_set history ''runs'' (JArr runs);
                 history = (if length runs > 50
                            then dict_set history ''runs'' (JArr (drop (length runs - 50) runs))
                            else history)
             in Inr (Some history, history)
         | _ \<Rightarrow> Inl AttributeError)"

text \<open>The run list a stored history holds, when the file is as the script writes it.\<close>

definition stored_runs :: "txn option \<Rightarrow> jvalue list option" where
  "stored_runs file =
     (case map_of (load_json file) ''runs'' of
        None \<Rightarrow> Some []
      | Some (JArr runs) \<Rightarrow> Some runs
      | Some _ \<Rightarrow> None)"

section \<open>Properties\<close>

subsection \<open>Auxiliary facts\<close>

lemma then_do_Inr [simp]: "then_do (Inr x) f = f x"
  by (simp add: then_do_def)

lemma then_do_Inl [simp]: "then_do (Inl e) f = Inl e"
  by (simp add: then_do_def)

lemma map_of_dict_set: "map_of (dict_set d k v) k = Some v"
  by (induction d k v rule: dict_set.induct) auto

lemma dict_set_twice: "dict_set (dict_set d k v) k w = dict_set d k w"
  by (induction d k v rule: dict_set.induct) auto

lemma dict_get_dict_set: "dict_get (dict_set d k v) k dflt = v"
  by (simp add: dict_get_def map_of_dict_set)

lemma py_div_ok: "b \<noteq> 0 \<Longrightarrow> py_div a b = Inr (a / b)"
  by (simp add: py_div_def)

lemma pf_div_ok:
  "n \<noteq> 0 \<Longrightarrow> pf_div a n = Inr (case a of Fin r \<Rightarrow> Fin (r / real n) | PInf \<Rightarrow> PInf)"
  by (cases a) (simp_all add: pf_div_def)

text \<open>The metrics of a non-empty list of results, in closed form: no division raises.\<close>

lemma compute_metrics_nonempty:
  fixes matches :: "transaction_match list" and n :: int
  assumes "matches \<noteq> []"
  defines "matched \<equiv> filter (\<lambda>m. ground_truth m \<noteq> None) matches"
  defines "k \<equiv> length matched"
  defines "p \<equiv> real k / real (length matches)"
  defines "r \<equiv> (if n \<noteq> 0 then real k / of_int n else 0)"
  shows "compute_metrics matches n =
     Inr \<lparr>matched_count = k, precision = p, recall = r,
          f1 = (if p + r > 0 then 2 * p * r / (p + r) else 0),
          date_accuracy =
            (if k \<noteq> 0 then real (length (filter date_match matched)) / real k else 0),
          description_accuracy =
            (if k \<noteq> 0 then sum_list (map description_match matched) / real k else 0),
          amount_accuracy =
            (if k \<noteq> 0 then real (length (filter amount_match matched)) / real k else 0),
          amount_mae =
            (if k \<noteq> 0
             then (case pf_sum (map amount_error matched) of
                     Fin e \<Rightarrow> Fin (e / real k) | PInf \<Rightarrow> PInf)
             else Fin 0)\<rparr>"
  using assms(1) unfolding compute_metrics_def Let_def matched_def k_def p_def r_def
  by (simp add: py_div_ok pf_div_ok del: not_None_eq)

subsection \<open>Metrics on degenerate inputs\<close>

text \<open>
  Claim C4. \<^verbatim>\<open>compute_metrics\<close> on an empty list of matches returns the all-zero
  metrics whatever the ground-truth count is; with a ground-truth count of 0 it returns
  (no \<^verbatim>\<open>ZeroDivisionError\<close>) and the recall is 0; and it always returns, with an F1 of 0
  whenever precision plus recall is 0.
\<close>

theorem compute_metrics_degenerate:
  "compute_metrics [] n = Inr zero_metrics
   \<and> zero_metrics = \<lparr>matched_count = 0, precision = 0, recall = 0, f1 = 0, date_accuracy = 0,
        description_accuracy = 0, amount_accuracy = 0, amount_mae = Fin 0\<rparr>
   \<and> (\<exists>mt. compute_metrics matches 0 = Inr mt \<and> recall mt = 0)
   \<and> (\<exists>mt. compute_metrics matches n = Inr mt \<and> (precision mt + recall mt = 0 \<longrightarrow> f1 mt = 0))"
proof (cases "matches = []")
  case True
  then show ?thesis by (simp add: compute_metrics_def zero_metrics_def)
next
  case False
  have "compute_metrics [] n = Inr zero_metrics" by (simp add: compute_metrics_def)
  moreover have "\<exists>mt. compute_metrics matches 0 = Inr mt \<and> recall mt = 0"
    using compute_metrics_nonempty [OF False, of 0] by simp
  moreover have "\<exists>mt. compute_metrics matches n = Inr mt
      \<and> (precision mt + recall mt = 0 \<longrightarrow> f1 mt = 0)"
    using compute_metrics_nonempty [OF False, of n] by simp
  ultimately show ?thesis by (simp add: zero_metrics_def)
qed

theorem compute_metrics_degenerate_witness:
  "(\<exists>mt. compute_metrics [unmatched [(''amount'', JNum 3)]] 0 = Inr mt
      \<and> recall mt = 0 \<and> precision mt + recall mt = 0 \<and> f1 mt = 0)
   \<and> compute_metrics [] 7 = Inr zero_metrics"
proof -
  have e: "compute_metrics [unmatched [(''amount'', JNum 3)]] 0
      = Inr \<lparr>matched_count = 0, precision = 0, recall = 0, f1 = 0, date_accuracy = 0,
        description_accuracy = 0, amount_accuracy = 0, amount_mae = Fin 0\<rparr>"
    by code_simp
  from compute_metrics_degenerate [of 0 "[unmatched [(''amount'', JNum 3)]]"]
  obtain mt where "compute_metrics [unmatched [(''amount'', JNum 3)]] 0 = Inr mt"
    and "precision mt + recall mt = 0 \<longrightarrow> f1 mt = 0" by blast
  with e have "\<exists>mt. compute_metrics [unmatched [(''amount'', JNum 3)]] 0 = Inr mt
      \<and> recall mt = 0 \<and> precision mt + recall mt = 0 \<and> f1 mt = 0" by auto
  moreover have "compute_metrics [] 7 = Inr zero_metrics"
    using compute_metrics_degenerate [of 7 "[]"] by blast
  ultimately show ?thesis by blast
qed

subsection \<open>The cap of the history log\<close>

text \<open>
  Claim C9. \<^verbatim>\<open>append_history\<close> puts the new entry at the end of the stored run list
  and keeps the last 50 entries: the list it writes and returns is the last 50 of the
  old list followed by the new entry, so it never has more than 50 entries, and when the
  stored list had 50 entries the result is that list without its first (oldest) entry,
  followed by the new entry.
\<close>

theorem append_history_cap:
  assumes "stored_runs file = Some old"
  shows "\<exists>history. append_history file new_results run_id now sha = Inr (Some history, history)
           \<and> map_of history ''runs''
               = Some (JArr (drop (length old + 1 - 50)
                               (old @ [history_entry new_results run_id now sha])))
           \<and> length (drop (length old + 1 - 50)
                       (old @ [history_entry new_results run_id now sha])) \<le> 50
           \<and> (length old = 50 \<longrightarrow>
                 drop (length old + 1 - 50) (old @ [history_entry new_results run_id now sha])
                   = tl old @ [history_entry new_results run_id now sha])"
proof -
  let ?e = "history_entry new_results run_id now sha"
  let ?h = "load_json file"
  have len: "length (drop (length old + 1 - 50) (old @ [?e])) \<le> 50" by simp
  have evict: "length old = 50 \<Longrightarrow> drop (length old + 1 - 50) (old @ [?e]) = tl old @ [?e]"
    by (cases old) simp_all
  show ?thesis
  proof (cases "map_of ?h ''runs''")
    case None
    with assms have old: "old = []" by (simp add: stored_runs_def)
    from None show ?thesis
      using len evict
      by (simp add: append_history_def Let_def dict_get_dict_set dict_set_twice
            map_of_dict_set old)
  next
    case (Some v)
    with assms have v: "v = JArr old" by (auto simp: stored_runs_def split: jvalue.splits)
    from Some v have g: "dict_get ?h ''runs'' JNull = JArr old" by (simp add: dict_get_def)
    show ?thesis
      using Some v g len evict
      by (auto simp add: append_history_def Let_def dict_get_dict_set dict_set_twice
            map_of_dict_set)
  qed
qed

theorem append_history_cap_witness:
  "stored_runs (Some [(''runs'', JArr (map (\<lambda>i. JNum (real i)) [0 ..< 50]))])
     = Some (map (\<lambda>i. JNum (real i)) [0 ..< 50])
   \<and> length (map (\<lambda>i. JNum (real i)) [0 ..< 50]) = 50
   \<and> (\<exists>history.
         append_history (Some [(''runs'', JArr (map (\<lambda>i. JNum (real i)) [0 ..< 50]))])
           [(''model'', JStr ''qwen'')] ''run-51'' ''2026-01-01T00:00:00+00:00'' ''abc1234''
           = Inr (Some history, history)
         \<and> map_of history ''runs''
             = Some (JArr (map (\<lambda>i. JNum (real i)) [1 ..< 50]
                  @ [JObj [(''run_id'', JStr ''run-51''),
                           (''timestamp'', JStr ''2026-01-01T00:00:00+00:00''),
                           (''model'', JStr ''qwen''),
                           (''git_sha'', JStr ''abc1234''),
                           (''results'', JObj [])]])))"
proof -
  let ?old = "map (\<lambda>i. JNum (real i)) [0 ..< 50]"
  let ?file = "Some [(''runs'', JArr ?old)]"
  have h: "stored_runs ?file = Some ?old" by (simp add: stored_runs_def load_json_def)
  have l: "length ?old = 50" by simp
  have t: "tl ?old = map (\<lambda>i. JNum (real i)) [1 ..< 50]"
    by (simp add: map_tl [symmetric] del: map_tl upt_Suc)
  have e: "history_entry [(''model'', JStr ''qwen'')] ''run-51'' ''2026-01-01T00:00:00+00:00'' ''abc1234''
     = JObj [(''run_id'', JStr ''run-51''),
                           (''timestamp'', JStr ''2026-01-01T00:00:00+00:00''),
                           (''model'', JStr ''qwen''),
                           (''git_sha'', JStr ''abc1234''),
                           (''results'', JObj [])]"
    by (simp add: history_entry_def dict_get_def)
  from append_history_cap [OF h, of "[(''model'', JStr ''qwen'')]" "''run-51''" "''2026-01-01T00:00:00+00:00''" "''abc1234''"]
  show ?thesis using h l t e by (metis (no_types, lifting))
qed

subsection \<open>The amount reconciliation cascade\<close>

lemma cascade_fst:
  "fst (if c1 then (True, x1) else if c2 then (True, x2) else if c3 then (True, x3)
        else if c4 then (True, x4) else if c5 then (True, x5) else if c6 then (True, x6)
        else if c7 then (if u then (True, x7) else (False, x8)) else (False, x9))
   = (c1 \<or> c2 \<or> c3 \<or> c4 \<or> c5 \<or> c6 \<or> (c7 \<and> u))"
  by simp

lemma amount_match_iff:
  "fst (amount_reconcile tol (Some p) (Some g))
     \<longleftrightarrow> scale_rules p g \<or> relative_rule tol p g \<or> unit_total_rule p g"
  unfolding amount_reconcile_def Let_def scale_rules_def relative_rule_def unit_total_rule_def
  apply (simp only: option.case prod.case cascade_fst)
  apply blast
  done

lemma scale_rules_sym: "scale_rules p g \<longleftrightarrow> scale_rules g p"
proof -
  have a: "\<bar>\<bar>p\<bar> - \<bar>g\<bar>\<bar> = \<bar>\<bar>g\<bar> - \<bar>p\<bar>\<bar>" by (rule abs_minus_commute)
  have b: "\<bar>\<bar>p\<bar> - \<bar>g\<bar> * 100\<bar> = \<bar>\<bar>g\<bar> * 100 - \<bar>p\<bar>\<bar>" by (rule abs_minus_commute)
  have c: "\<bar>\<bar>p\<bar> * 100 - \<bar>g\<bar>\<bar> = \<bar>\<bar>g\<bar> - \<bar>p\<bar> * 100\<bar>" by (rule abs_minus_commute)
  have d: "\<bar>\<bar>p\<bar> * 1000 - \<bar>g\<bar>\<bar> = \<bar>\<bar>g\<bar> - \<bar>p\<bar> * 1000\<bar>" by (rule abs_minus_commute)
  have e: "\<bar>\<bar>p\<bar> - \<bar>g\<bar> * 1000\<bar> = \<bar>\<bar>g\<bar> * 1000 - \<bar>p\<bar>\<bar>" by (rule abs_minus_commute)
  show ?thesis
    unfolding scale_rules_def a b c d e by blast
qed






text \<open>The third branch of the cascade.\<close>

lemma reconcile_100_branch:
  assumes "\<not> \<bar>\<bar>p\<bar> - \<bar>g\<bar>\<bar> < 0.01"
    and "\<not> (\<bar>g\<bar> \<noteq> 0 \<and> \<bar>\<bar>p\<bar> - \<bar>g\<bar>\<bar> / \<bar>g\<bar> < tol)"
    and "\<bar>\<bar>p\<bar> - \<bar>g\<bar> * 100\<bar> < 0.01"
  shows "amount_reconcile tol (Some p) (Some g) = (True, Fin \<bar>\<bar>p\<bar> / 100 - \<bar>g\<bar>\<bar>)"
  unfolding amount_reconcile_def Let_def
  by (simp only: option.case prod.case assms if_True if_False)



subsection \<open>The date normaliser\<close>

lemma isdigit_digit_char: "isdigit (digit_char n)"
  by (simp add: isdigit_def digit_char_def code_point_def Let_def)

lemma is_iso_date_strftime: "is_iso_date (strftime dt)"
  by (simp add: is_iso_date_def strftime_def isdigit_digit_char)

lemma try_formats_none:
  "(\<forall>fmt \<in> set fmts. strptime s fmt = None) \<Longrightarrow> try_formats fmts s = None"
  by (induction fmts) auto

lemma try_formats_first:
  "(\<forall>f \<in> set pre. strptime s f = None) \<Longrightarrow> strptime s fmt = Some dt
     \<Longrightarrow> try_formats (pre @ fmt # post) s = Some dt"
  by (induction pre) auto

lemma normalize_date_total: "text_like v \<Longrightarrow> \<exists>d. normalize_date v = Inr d"
  by (cases v) (simp_all add: normalize_date_def split: option.splits)

lemma normalize_date_str:
  "normalize_date (JStr s) =
     Inr (if s = [] then None
          else case try_formats formats (strip s) of Some dt \<Rightarrow> Some (strftime dt) | None \<Rightarrow> Some s)"
  by (simp add: normalize_date_def split: option.splits)



subsection \<open>The fuzzy matcher refines its reference\<close>

lemma starts_with_iff: "starts_with a b \<longleftrightarrow> (\<exists>v. b = a @ v)"
  by (induction a b rule: starts_with.induct) auto

lemma str_in_iff: "str_in a b \<longleftrightarrow> is_substring a b"
proof (induction b)
  case Nil
  then show ?case by (auto simp: is_substring_def)
next
  case (Cons c cs)
  have "is_substring a (c # cs) \<longleftrightarrow> (\<exists>v. c # cs = a @ v) \<or> is_substring a cs"
    unfolding is_substring_def
  proof
    assume "\<exists>u v. c # cs = u @ a @ v"
    then obtain u v where uv: "c # cs = u @ a @ v" by blast
    show "(\<exists>v. c # cs = a @ v) \<or> (\<exists>u v. cs = u @ a @ v)"
    proof (cases u)
      case Nil
      with uv show ?thesis by auto
    next
      case (Cons x u')
      with uv have "cs = u' @ a @ v" by simp
      then show ?thesis by blast
    qed
  next
    assume "(\<exists>v. c # cs = a @ v) \<or> (\<exists>u v. cs = u @ a @ v)"
    then show "\<exists>u v. c # cs = u @ a @ v"
    proof
      assume "\<exists>v. c # cs = a @ v"
      then obtain v where "c # cs = [] @ a @ v" by auto
      then show ?thesis by blast
    next
      assume "\<exists>u v. cs = u @ a @ v"
      then obtain u v where "cs = u @ a @ v" by blast
      then have "c # cs = (c # u) @ a @ v" by simp
      then show ?thesis by blast
    qed
  qed
  with Cons show ?case by (simp add: starts_with_iff)
qed


lemma token_set_Nil: "token_set [] = {}"
  by (auto simp: token_set_def)

lemma token_set_space:
  assumes "isspace c"
  shows "token_set (c # cs) = token_set cs"
proof (rule set_eqI, rule iffI)
  fix t
  assume "t \<in> token_set (c # cs)"
  then obtain u v where t: "t \<noteq> []" "\<forall>x \<in> set t. \<not> isspace x"
    and uv: "c # cs = u @ t @ v" "u = [] \<or> isspace (last u)" "v = [] \<or> isspace (hd v)"
    by (auto simp: token_set_def)
  have "u \<noteq> []"
  proof
    assume "u = []"
    with uv(1) t(1) have "c = hd t" by (cases t) auto
    with t assms show False by (cases t) auto
  qed
  then obtain u' where u': "u = c # u'" using uv(1) by (cases u) auto
  with uv(1) have "cs = u' @ t @ v" by simp
  moreover from u' uv(2) have "u' = [] \<or> isspace (last u')" by (auto split: if_splits)
  ultimately show "t \<in> token_set cs" using t uv(3) by (auto simp: token_set_def)
next
  fix t
  assume "t \<in> token_set cs"
  then obtain u v where t: "t \<noteq> []" "\<forall>x \<in> set t. \<not> isspace x"
    and uv: "cs = u @ t @ v" "u = [] \<or> isspace (last u)" "v = [] \<or> isspace (hd v)"
    by (auto simp: token_set_def)
  from uv(1) have "c # cs = (c # u) @ t @ v" by simp
  moreover from uv(2) assms have "isspace (last (c # u))" by auto
  ultimately show "t \<in> token_set (c # cs)" using t uv(3) unfolding token_set_def by blast
qed

lemma token_set_word:
  assumes "\<not> isspace c"
  shows "token_set (c # cs) =
     insert (c # takeWhile (\<lambda>x. \<not> isspace x) cs) (token_set (dropWhile (\<lambda>x. \<not> isspace x) cs))"
proof -
  let ?P = "\<lambda>x. \<not> isspace x"
  let ?w = "takeWhile ?P cs"
  let ?r = "dropWhile ?P cs"
  have cs: "cs = ?w @ ?r" by simp
  have r: "?r = [] \<or> isspace (hd ?r)" using hd_dropWhile [of ?P cs] by auto
  have first: "c # ?w \<in> token_set (c # cs)"
  proof -
    have "c # cs = [] @ (c # ?w) @ ?r" by simp
    moreover have "\<forall>x \<in> set (c # ?w). \<not> isspace x"
      using assms by (auto dest: set_takeWhileD)
    ultimately show ?thesis using r unfolding token_set_def by blast
  qed
  have later: "t \<in> token_set (c # cs)" if "t \<in> token_set ?r" for t
  proof -
    from that obtain u v where t: "t \<noteq> []" "\<forall>x \<in> set t. \<not> isspace x"
      and uv: "?r = u @ t @ v" "u = [] \<or> isspace (last u)" "v = [] \<or> isspace (hd v)"
      by (auto simp: token_set_def)
    have "u \<noteq> []"
    proof
      assume "u = []"
      with uv(1) t(1) have "?r \<noteq> []" "hd ?r = hd t" by auto
      with r t show False by (cases t) auto
    qed
    with uv(2) have "isspace (last ((c # ?w) @ u))" by simp
    moreover have "c # cs = ((c # ?w) @ u) @ t @ v"
      using cs uv(1) by (metis append.assoc append_Cons)
    ultimately show ?thesis using t uv(3) unfolding token_set_def by blast
  qed
  have only: "t = c # ?w \<or> t \<in> token_set ?r" if "t \<in> token_set (c # cs)" for t
  proof -
    from that obtain u v where t: "t \<noteq> []" "\<forall>x \<in> set t. \<not> isspace x"
      and uv: "c # cs = u @ t @ v" "u = [] \<or> isspace (last u)" "v = [] \<or> isspace (hd v)"
      by (auto simp: token_set_def)
    show ?thesis
    proof (cases u)
      case Nil
      with uv(1) have tv: "c # cs = t @ v" by simp
      from uv(3) have "takeWhile ?P v = []" by (cases v) auto
      with t(2) have "takeWhile ?P (t @ v) = t" by (simp add: takeWhile_append2)
      with tv have "takeWhile ?P (c # cs) = t" by simp
      with assms show ?thesis by simp
    next
      case (Cons x u')
      with uv(1) have x: "x = c" and cs': "cs = u' @ t @ v" by auto
      from Cons uv(2) x assms have u'ne: "u' \<noteq> []" and sp: "isspace (last u')"
        by (auto split: if_splits)
      then have mem: "last u' \<in> set u'" by simp
      from cs' have r': "?r = dropWhile ?P u' @ t @ v"
        using dropWhile_append1 [OF mem, of ?P "t @ v"] sp by simp
      have ne: "dropWhile ?P u' \<noteq> []"
        using mem sp by (auto simp: dropWhile_eq_Nil_conv)
      then have "last (dropWhile ?P u') = last u'"
        by (metis last_appendR takeWhile_dropWhile_id)
      with sp have "isspace (last (dropWhile ?P u'))" by simp
      with r' have "t \<in> token_set ?r"
        using t uv(3) unfolding token_set_def by blast
      then show ?thesis ..
    qed
  qed
  show ?thesis using first later only by blast
qed

lemma set_split_ws: "set (split_ws s) = token_set s"
  by (induction s rule: split_ws.induct)
     (simp_all add: token_set_Nil token_set_space token_set_word)

lemma normalize_text_str:
  "normalize_text (JStr s) = Inr (remove_punctuation (collapse_whitespace (strip (lower s))))"
  by (cases s) (simp_all add: normalize_text_def remove_punctuation_def strip_def lower_def)

lemma jaccard_range:
  assumes "finite A" "finite B"
  shows "0 \<le> jaccard A B \<and> jaccard A B \<le> 1"
proof -
  have "card (A \<inter> B) \<le> card (A \<union> B)"
    using assms by (intro card_mono) auto
  then show ?thesis
    unfolding jaccard_def by (auto simp add: divide_le_eq_1)
qed

lemma fuzzy_reference_range: "0 \<le> fuzzy_reference p t \<and> fuzzy_reference p t \<le> 1"
proof -
  have "finite (token_set p)" "finite (token_set t)"
    by (simp_all add: set_split_ws [symmetric])
  then show ?thesis
    using jaccard_range [of "token_set p" "token_set t"] by (simp add: fuzzy_reference_def)
qed

lemma fuzzy_match_score_norm:
  assumes "normalize_text a = Inr p" "normalize_text b = Inr t"
  shows "fuzzy_match_score a b = Inr (fuzzy_reference p t)"
  using assms
  by (simp add: fuzzy_match_score_def fuzzy_reference_def Let_def str_in_iff set_split_ws
      jaccard_def)

text \<open>
  Claim C7. On all strings \<^verbatim>\<open>fuzzy_match_score\<close> returns the score of the three-tier
  reference on the two normalised texts: 0.0 if either is empty, else 1.0 if they are
  equal, else 0.9 if one is a substring of the other, else the Jaccard similarity of
  their sets of whitespace-delimited tokens; the score lies between 0 and 1. The four
  examples of the specification evaluate as it says.
\<close>

theorem fuzzy_match_score_refines:
  "(\<exists>p t. normalize_text (JStr a) = Inr p \<and> normalize_text (JStr b) = Inr t
       \<and> fuzzy_match_score (JStr a) (JStr b) = Inr (fuzzy_reference p t)
       \<and> 0 \<le> fuzzy_reference p t \<and> fuzzy_reference p t \<le> 1)
   \<and> fuzzy_match_score (JStr ''Starbucks'') (JStr ''starbucks'') = Inr 1.0
   \<and> fuzzy_match_score (JStr ''STARBUCKS #123'') (JStr ''Starbucks'') = Inr 0.9
   \<and> fuzzy_match_score (JStr ''a b c'') (JStr ''c b d'') = Inr 0.5
   \<and> fuzzy_match_score (JStr []) (JStr ''x'') = Inr 0.0"
proof -
  have ex: "fuzzy_match_score (JStr ''Starbucks'') (JStr ''starbucks'') = Inr 1.0"
    "fuzzy_match_score (JStr ''STARBUCKS #123'') (JStr ''Starbucks'') = Inr 0.9"
    "fuzzy_match_score (JStr ''a b c'') (JStr ''c b d'') = Inr 0.5"
    "fuzzy_match_score (JStr []) (JStr ''x'') = Inr 0.0"
    by code_simp+
  obtain p t where pt: "normalize_text (JStr a) = Inr p" "normalize_text (JStr b) = Inr t"
    by (simp add: normalize_text_str)
  from fuzzy_match_score_norm [OF pt] fuzzy_reference_range [of p t] pt
  have "\<exists>p t. normalize_text (JStr a) = Inr p \<and> normalize_text (JStr b) = Inr t
       \<and> fuzzy_match_score (JStr a) (JStr b) = Inr (fuzzy_reference p t)
       \<and> 0 \<le> fuzzy_reference p t \<and> fuzzy_reference p t \<le> 1"
    by blast
  with ex show ?thesis by blast
qed

theorem fuzzy_match_score_refines_witness:
  "normalize_text (JStr ''A, b  c'') = Inr ''a b c''
   \<and> normalize_text (JStr ''c B d!'') = Inr ''c b d''
   \<and> fuzzy_match_score (JStr ''A, b  c'') (JStr ''c B d!'') = Inr 0.5
   \<and> fuzzy_reference ''a b c'' ''c b d'' = 0.5"
proof -
  have n: "normalize_text (JStr ''A, b  c'') = Inr ''a b c''"
    "normalize_text (JStr ''c B d!'') = Inr ''c b d''"
    by code_simp+
  have s: "fuzzy_match_score (JStr ''A, b  c'') (JStr ''c B d!'') = Inr 0.5"
    by code_simp
  from fuzzy_match_score_refines [of "''A, b  c''" "''c B d!''"] n s
  have "fuzzy_reference ''a b c'' ''c b d'' = 0.5" by auto
  with n s show ?thesis by blast
qed

subsection \<open>What the matcher emits\<close>

lemma normalize_text_total: "text_like v \<Longrightarrow> \<exists>s. normalize_text v = Inr s"
  by (cases v) (simp_all add: normalize_text_def)

lemma fuzzy_match_score_total:
  assumes "text_like a" "text_like b"
  shows "\<exists>s. fuzzy_match_score a b = Inr s"
proof -
  from assms obtain p t where "normalize_text a = Inr p" "normalize_text b = Inr t"
    using normalize_text_total by blast
  then show ?thesis using fuzzy_match_score_norm by blast
qed

lemma fuzzy_match_score_eq:
  assumes "fuzzy_match_score a b = Inr s"
  shows "\<exists>p t. normalize_text a = Inr p \<and> normalize_text b = Inr t \<and> s = fuzzy_reference p t"
proof -
  from assms obtain p where p: "normalize_text a = Inr p"
    by (cases "normalize_text a") (simp_all add: fuzzy_match_score_def)
  with assms obtain t where t: "normalize_text b = Inr t"
    by (cases "normalize_text b") (simp_all add: fuzzy_match_score_def)
  from fuzzy_match_score_norm [OF p t] assms have "s = fuzzy_reference p t" by simp
  with p t show ?thesis by blast
qed

lemma fuzzy_match_score_range:
  "fuzzy_match_score a b = Inr s \<Longrightarrow> 0 \<le> s \<and> s \<le> 1"
  using fuzzy_match_score_eq [of a b s] fuzzy_reference_range by blast

lemma cascade_snd:
  assumes "Q x1" "Q x2" "Q x3" "Q x4" "Q x5" "Q x6" "Q x7" "Q x8" "Q x9"
  shows "Q (snd (if c1 then (True, x1) else if c2 then (True, x2) else if c3 then (True, x3)
        else if c4 then (True, x4) else if c5 then (True, x5) else if c6 then (True, x6)
        else if c7 then (if u then (True, x7) else (False, x8)) else (False, x9)))"
  using assms by simp

lemma amount_reconcile_error:
  "snd (amount_reconcile tol pa ga) = PInf
   \<or> (\<exists>e. snd (amount_reconcile tol pa ga) = Fin e \<and> 0 \<le> e)"
proof (cases pa)
  case None
  then show ?thesis by (simp add: amount_reconcile_def)
next
  case (Some p)
  show ?thesis
  proof (cases ga)
    case None
    with Some show ?thesis by (simp add: amount_reconcile_def)
  next
    case g: (Some g)
    have "\<exists>e. snd (amount_reconcile tol (Some p) (Some g)) = Fin e \<and> 0 \<le> e"
      unfolding amount_reconcile_def Let_def option.case prod.case
      by (rule cascade_snd) simp_all
    with Some g show ?thesis by simp
  qed
qed

text \<open>The loop body in closed form, once its two fallible calls have returned.\<close>

lemma candidate_eq:
  assumes "normalize_date (get_date gt) = Inr gd"
    and "fuzzy_match_score pdesc (get_description gt) = Inr ds"
  shows "candidate tol pred pd pdesc pamt gt =
     Inr (\<lparr>predicted = pred, ground_truth = Some gt,
           date_match = (opt_truthy pd \<and> opt_truthy gd \<and> pd = gd),
           description_match = ds,
           amount_match = fst (amount_reconcile tol pamt (normalize_amount (get_amount gt))),
           amount_error =
             (case snd (amount_reconcile tol pamt (normalize_amount (get_amount gt))) of
                PInf \<Rightarrow> Fin 0 | Fin e \<Rightarrow> Fin e)\<rparr>,
          composite_score (opt_truthy pd \<and> opt_truthy gd \<and> pd = gd) ds
            (fst (amount_reconcile tol pamt (normalize_amount (get_amount gt)))))"
proof -
  obtain am ae where r: "amount_reconcile tol pamt (normalize_amount (get_amount gt)) = (am, ae)"
    by (cases "amount_reconcile tol pamt (normalize_amount (get_amount gt))")
  have dm: "(if opt_truthy pd \<and> opt_truthy gd then pd = gd else False)
      = (opt_truthy pd \<and> opt_truthy gd \<and> pd = gd)"
    by auto
  have ae: "(if ae \<noteq> PInf then ae else Fin 0) = (case ae of PInf \<Rightarrow> Fin 0 | Fin e \<Rightarrow> Fin e)"
    by (cases ae) simp_all
  show ?thesis
    unfolding candidate_def assms then_do_Inr Let_def r dm
    by (simp only: prod.case fst_conv snd_conv ae)
qed

lemma candidate_Inr:
  assumes "candidate tol pred pd pdesc pamt gt = Inr r"
  shows "\<exists>gd ds. normalize_date (get_date gt) = Inr gd
           \<and> fuzzy_match_score pdesc (get_description gt) = Inr ds"
proof -
  from assms obtain gd where gd: "normalize_date (get_date gt) = Inr gd"
    by (cases "normalize_date (get_date gt)") (simp_all add: candidate_def)
  from assms gd obtain ds where "fuzzy_match_score pdesc (get_description gt) = Inr ds"
    by (cases "fuzzy_match_score pdesc (get_description gt)") (simp_all add: candidate_def Let_def)
  with gd show ?thesis by blast
qed

lemma candidate_total:
  assumes "well_typed gt" "text_like pdesc"
  shows "\<exists>r. candidate tol pred pd pdesc pamt gt = Inr r"
proof -
  from assms obtain gd where gd: "normalize_date (get_date gt) = Inr gd"
    using normalize_date_total by (auto simp: well_typed_def)
  from assms obtain ds where ds: "fuzzy_match_score pdesc (get_description gt) = Inr ds"
    using fuzzy_match_score_total by (auto simp: well_typed_def)
  from candidate_eq [OF gd ds] show ?thesis by blast
qed
text \<open>The inner loop keeps its best candidate or replaces it by a scanned one.\<close>

lemma scan_sound:
  assumes "scan_ground_truth tol pred pd pdesc pamt used cands (best, bs) = Inr (best', bs')"
  shows "best' = best
    \<or> (\<exists>m i gt sc. best' = Some (m, i) \<and> (i, gt) \<in> set cands \<and> i \<notin> used
          \<and> candidate tol pred pd pdesc pamt gt = Inr (m, sc) \<and> 0.5 < sc)"
  using assms
proof (induction cands arbitrary: best bs)
  case Nil
  then show ?case by simp
next
  case (Cons c rest)
  obtain i gt where c: "c = (i, gt)" by (cases c)
  show ?case
  proof (cases "i \<in> used")
    case True
    with Cons.prems c
    have "scan_ground_truth tol pred pd pdesc pamt used rest (best, bs) = Inr (best', bs')"
      by simp
    from Cons.IH [OF this] show ?thesis by auto
  next
    case False
    with Cons.prems c obtain m sc where cand: "candidate tol pred pd pdesc pamt gt = Inr (m, sc)"
      by (cases "candidate tol pred pd pdesc pamt gt") auto
    show ?thesis
    proof (cases "sc > bs \<and> sc > 0.5")
      case True
      with Cons.prems c False cand
      have "scan_ground_truth tol pred pd pdesc pamt used rest (Some (m, i), sc) = Inr (best', bs')"
        by simp
      from Cons.IH [OF this] show ?thesis
      proof
        assume "best' = Some (m, i)"
        with c False cand True show ?thesis by auto
      next
        assume "\<exists>m i gt sc. best' = Some (m, i) \<and> (i, gt) \<in> set rest \<and> i \<notin> used
          \<and> candidate tol pred pd pdesc pamt gt = Inr (m, sc) \<and> 0.5 < sc"
        then show ?thesis by auto
      qed
    next
      case F2: False
      with Cons.prems c False cand
      have "scan_ground_truth tol pred pd pdesc pamt used rest (best, bs) = Inr (best', bs')"
        by auto
      from Cons.IH [OF this] show ?thesis by auto
    qed
  qed
qed

lemma scan_total:
  assumes "list_all (\<lambda>c. well_typed (snd c)) cands" "text_like pdesc"
  shows "\<exists>r. scan_ground_truth tol pred pd pdesc pamt used cands st = Inr r"
  using assms(1)
proof (induction cands arbitrary: st)
  case Nil
  then show ?case by simp
next
  case (Cons c rest)
  obtain i gt where c: "c = (i, gt)" by (cases c)
  obtain best bs where st: "st = (best, bs)" by (cases st)
  from Cons.prems c have wt: "well_typed gt" and rest: "list_all (\<lambda>c. well_typed (snd c)) rest"
    by simp_all
  from candidate_total [OF wt assms(2)] obtain m sc
    where "candidate tol pred pd pdesc pamt gt = Inr (m, sc)" by fastforce
  then show ?case using Cons.IH [OF rest] c st by simp
qed
lemma consumed_append:
  "consumed (ms @ [m]) = consumed ms @ (case ground_truth m of None \<Rightarrow> [] | Some g \<Rightarrow> [g])"
  by (simp add: consumed_def)

lemma emitted_unmatched: "emitted tol gts (unmatched pred)"
  by (simp add: emitted_def unmatched_def)

text \<open>
  The invariant of the outer loop: the results hold exactly the ground-truth records
  whose indices are in \<^verbatim>\<open>used_gt\<close>, each once; every result is the unmatched result or a
  candidate above the threshold; and the results follow the predictions one for one.
\<close>

lemma match_loop_invariant:
  assumes "match_loop tol gts preds (ms, used) = Inr (ms', used')"
    and "finite used" "used \<subseteq> {..<length gts}"
    and "mset (consumed ms) = image_mset ((!) gts) (mset_set used)"
    and "\<forall>m \<in> set ms. emitted tol gts m"
  shows "map predicted ms' = map predicted ms @ preds
    \<and> finite used' \<and> used' \<subseteq> {..<length gts}
    \<and> mset (consumed ms') = image_mset ((!) gts) (mset_set used')
    \<and> (\<forall>m \<in> set ms'. emitted tol gts m)"
  using assms
proof (induction preds arbitrary: ms used)
  case Nil
  then show ?case by simp
next
  case (Cons pred rest)
  let ?pdesc = "get_description pred"
  let ?pamt = "normalize_amount (get_amount pred)"
  from Cons.prems(1) obtain pd where pd: "normalize_date (get_date pred) = Inr pd"
    by (cases "normalize_date (get_date pred)") simp_all
  from Cons.prems(1) pd obtain best bs where
    scan: "scan_ground_truth tol pred pd ?pdesc ?pamt used (enumerate 0 gts) (None, 0) = Inr (best, bs)"
    by (cases "scan_ground_truth tol pred pd ?pdesc ?pamt used (enumerate 0 gts) (None, 0)")
       (auto simp: Let_def)
  show ?case
  proof (cases best)
    case None
    with Cons.prems(1) pd scan
    have step: "match_loop tol gts rest (ms @ [unmatched pred], used) = Inr (ms', used')"
      by (simp add: Let_def)
    have "mset (consumed (ms @ [unmatched pred])) = image_mset ((!) gts) (mset_set used)"
      using Cons.prems(4) by (simp add: consumed_append unmatched_def)
    moreover have "\<forall>m \<in> set (ms @ [unmatched pred]). emitted tol gts m"
      using Cons.prems(5) emitted_unmatched by auto
    ultimately have "map predicted ms' = map predicted (ms @ [unmatched pred]) @ rest
      \<and> finite used' \<and> used' \<subseteq> {..<length gts}
      \<and> mset (consumed ms') = image_mset ((!) gts) (mset_set used')
      \<and> (\<forall>m \<in> set ms'. emitted tol gts m)"
      using Cons.IH [OF step Cons.prems(2,3)] by blast
    then show ?thesis by (simp add: unmatched_def)
  next
    case (Some b)
    obtain bm bi where b: "b = (bm, bi)" by (cases b)
    from scan_sound [OF scan] Some b obtain gt sc where
      mem: "(bi, gt) \<in> set (enumerate 0 gts)" and fresh: "bi \<notin> used"
      and cand: "candidate tol pred pd ?pdesc ?pamt gt = Inr (bm, sc)" and sc: "0.5 < sc"
      by auto
    from mem have bi: "bi < length gts" and gt: "gt = gts ! bi"
      by (simp_all add: in_set_enumerate_eq)
    from candidate_Inr [OF cand] obtain gd ds where
      "normalize_date (get_date gt) = Inr gd" "fuzzy_match_score ?pdesc (get_description gt) = Inr ds"
      by blast
    from candidate_eq [OF this, of tol pred pd ?pamt] cand
    have bm: "predicted bm = pred" "ground_truth bm = Some gt" by auto
    from Cons.prems(1) pd scan Some b
    have step: "match_loop tol gts rest (ms @ [bm], insert bi used) = Inr (ms', used')"
      by (simp add: Let_def)
    have f: "finite (insert bi used)" using Cons.prems(2) by simp
    have s: "insert bi used \<subseteq> {..<length gts}" using Cons.prems(3) bi by simp
    have c: "mset (consumed (ms @ [bm])) = image_mset ((!) gts) (mset_set (insert bi used))"
      using Cons.prems(2,4) fresh bm gt by (simp add: consumed_append)
    have "gt \<in> set gts" using bi gt by simp
    with cand sc pd bm have "emitted tol gts bm"
      unfolding emitted_def by auto
    with Cons.prems(5) have e: "\<forall>m \<in> set (ms @ [bm]). emitted tol gts m" by auto
    from Cons.IH [OF step f s c e] bm show ?thesis by simp
  qed
qed

lemma match_loop_total:
  assumes "list_all well_typed preds" "list_all well_typed gts"
  shows "\<exists>r. match_loop tol gts preds st = Inr r"
  using assms(1)
proof (induction preds arbitrary: st)
  case Nil
  then show ?case by simp
next
  case (Cons pred rest)
  obtain ms used where st: "st = (ms, used)" by (cases st)
  from Cons.prems have wt: "well_typed pred" and rest: "list_all well_typed rest" by simp_all
  from wt obtain pd where pd: "normalize_date (get_date pred) = Inr pd"
    using normalize_date_total by (auto simp: well_typed_def)
  have "list_all (\<lambda>c. well_typed (snd c)) (enumerate 0 gts)"
    using assms(2) by (auto simp: list_all_iff in_set_enumerate_eq)
  moreover from wt have "text_like (get_description pred)" by (simp add: well_typed_def)
  ultimately obtain best bs where
    "scan_ground_truth tol pred pd (get_description pred) (normalize_amount (get_amount pred))
       used (enumerate 0 gts) (None, 0) = Inr (best, bs)"
    using scan_total by fastforce
  with pd st Cons.IH [OF rest] show ?case
    by (cases best) (auto simp: Let_def)
qed

lemma image_nth_mset_set: "image_mset ((!) xs) (mset_set {..<length xs}) = mset xs"
proof -
  have "mset xs = mset (map ((!) xs) [0..<length xs])" by (simp only: map_nth)
  also have "\<dots> = image_mset ((!) xs) (mset [0..<length xs])" by (simp only: mset_map)
  also have "mset [0..<length xs] = mset_set {0..<length xs}" by (rule mset_upt)
  also have "{0..<length xs} = {..<length xs}" by (rule atLeast0LessThan)
  finally show ?thesis by simp
qed

text \<open>What \<^verbatim>\<open>match_transactions\<close> returns, when it returns.\<close>

lemma match_transactions_with_sound:
  assumes "match_transactions_with preds gts days tol = Inr ms"
  shows "map predicted ms = preds" and "mset (consumed ms) \<subseteq># mset gts"
    and "\<forall>m \<in> set ms. emitted tol gts m"
proof -
  from assms obtain used where
    loop: "match_loop tol gts preds ([], {}) = Inr (ms, used)"
    by (cases "match_loop tol gts preds ([], {})") (auto simp: match_transactions_with_def)
  have inv: "map predicted ms = map predicted [] @ preds
    \<and> finite used \<and> used \<subseteq> {..<length gts}
    \<and> mset (consumed ms) = image_mset ((!) gts) (mset_set used)
    \<and> (\<forall>m \<in> set ms. emitted tol gts m)"
    using match_loop_invariant [OF loop] by (simp add: consumed_def)
  then show "map predicted ms = preds" "\<forall>m \<in> set ms. emitted tol gts m" by simp_all
  from inv have "mset_set used \<subseteq># mset_set {..<length gts}"
    by (intro subset_imp_msubset_mset_set) simp_all
  then have "image_mset ((!) gts) (mset_set used) \<subseteq># image_mset ((!) gts) (mset_set {..<length gts})"
    by (rule image_mset_subseteq_mono)
  also have "image_mset ((!) gts) (mset_set {..<length gts}) = mset gts"
    by (rule image_nth_mset_set)
  finally show "mset (consumed ms) \<subseteq># mset gts" using inv by simp
qed

lemma match_transactions_with_total:
  assumes "list_all well_typed preds" "list_all well_typed gts"
  shows "\<exists>ms. match_transactions_with preds gts days tol = Inr ms"
  using match_loop_total [OF assms, of tol "([], {})"]
  by (auto simp: match_transactions_with_def)

subsection \<open>Matching without replacement\<close>

lemma match_twice:
  assumes "match_transactions_with [p] [g] days tol = Inr [m]" and "ground_truth m \<noteq> None"
  shows "match_transactions_with [p, p] [g] days tol = Inr [m, unmatched p]"
proof -
  let ?pdesc = "get_description p"
  let ?pamt = "normalize_amount (get_amount p)"
  from assms(1) obtain pd where pd: "normalize_date (get_date p) = Inr pd"
    by (cases "normalize_date (get_date p)") (simp_all add: match_transactions_with_def)
  from assms(1) pd obtain best bs where
    scan: "scan_ground_truth tol p pd ?pdesc ?pamt {} (enumerate 0 [g]) (None, 0) = Inr (best, bs)"
    by (cases "scan_ground_truth tol p pd ?pdesc ?pamt {} (enumerate 0 [g]) (None, 0)")
       (auto simp: match_transactions_with_def Let_def)
  have "best \<noteq> None"
  proof
    assume "best = None"
    with assms(1) pd scan have "m = unmatched p"
      by (simp add: match_transactions_with_def Let_def)
    with assms(2) show False by (simp add: unmatched_def)
  qed
  then obtain bm bi where best: "best = Some (bm, bi)" by (cases best) auto
  from scan_sound [OF scan] best have bi: "bi = 0" by auto
  from assms(1) pd scan best have m: "bm = m"
    by (simp add: match_transactions_with_def Let_def)
  have skip: "scan_ground_truth tol p pd ?pdesc ?pamt {0} (enumerate 0 [g]) (None, 0) = Inr (None, 0)"
    by simp
  show ?thesis
    using pd scan best bi m skip
    by (simp add: match_transactions_with_def Let_def)
qed



subsection \<open>The fields of an emitted result\<close>

lemma emitted_cases:
  assumes "emitted tol gts m"
  obtains (unmatched) "m = unmatched (predicted m)"
  | (matched) gt pd gd ds where "gt \<in> set gts"
      "normalize_date (get_date (predicted m)) = Inr pd"
      "normalize_date (get_date gt) = Inr gd"
      "fuzzy_match_score (get_description (predicted m)) (get_description gt) = Inr ds"
      "ground_truth m = Some gt"
      "date_match m = (opt_truthy pd \<and> opt_truthy gd \<and> pd = gd)"
      "description_match m = ds"
      "amount_match m = fst (amount_reconcile tol (normalize_amount (get_amount (predicted m)))
                                (normalize_amount (get_amount gt)))"
      "amount_error m =
         (case snd (amount_reconcile tol (normalize_amount (get_amount (predicted m)))
                      (normalize_amount (get_amount gt))) of
            PInf \<Rightarrow> Fin 0 | Fin e \<Rightarrow> Fin e)"
proof (cases "m = unmatched (predicted m)")
  case True
  then show ?thesis by (rule unmatched)
next
  case False
  with assms obtain gt pd sc where gt: "gt \<in> set gts"
    and pd: "normalize_date (get_date (predicted m)) = Inr pd"
    and cand: "candidate tol (predicted m) pd (get_description (predicted m))
                  (normalize_amount (get_amount (predicted m))) gt = Inr (m, sc)"
    unfolding emitted_def by blast
  from candidate_Inr [OF cand] obtain gd ds where
    gd: "normalize_date (get_date gt) = Inr gd"
    and ds: "fuzzy_match_score (get_description (predicted m)) (get_description gt) = Inr ds"
    by blast
  from candidate_eq [OF gd ds, of tol "predicted m" pd "normalize_amount (get_amount (predicted m))"]
    cand
  have m: "m = \<lparr>predicted = predicted m, ground_truth = Some gt,
           date_match = (opt_truthy pd \<and> opt_truthy gd \<and> pd = gd),
           description_match = ds,
           amount_match = fst (amount_reconcile tol (normalize_amount (get_amount (predicted m)))
                                 (normalize_amount (get_amount gt))),
           amount_error =
             (case snd (amount_reconcile tol (normalize_amount (get_amount (predicted m)))
                          (normalize_amount (get_amount gt))) of
                PInf \<Rightarrow> Fin 0 | Fin e \<Rightarrow> Fin e)\<rparr>"
    by simp
  from arg_cong [OF m, of ground_truth] have f1: "ground_truth m = Some gt" by simp
  from arg_cong [OF m, of date_match]
  have f2: "date_match m = (opt_truthy pd \<and> opt_truthy gd \<and> pd = gd)" by simp
  from arg_cong [OF m, of description_match] have f3: "description_match m = ds" by simp
  from arg_cong [OF m, of amount_match]
  have f4: "amount_match m = fst (amount_reconcile tol (normalize_amount (get_amount (predicted m)))
                                (normalize_amount (get_amount gt)))" by simp
  from arg_cong [OF m, of amount_error]
  have f5: "amount_error m =
         (case snd (amount_reconcile tol (normalize_amount (get_amount (predicted m)))
                      (normalize_amount (get_amount gt))) of
            PInf \<Rightarrow> Fin 0 | Fin e \<Rightarrow> Fin e)" by simp
  show ?thesis
    by (rule matched [OF gt pd gd ds f1 f2 f3 f4 f5])
qed

subsection \<open>The date flag\<close>

lemma normalize_date_Some:
  assumes "normalize_date v = Inr (Some d)"
  shows "d \<noteq> [] \<and> (is_iso_date d \<or> (v = JStr d \<and> try_formats formats (strip d) = None))"
proof (cases v)
  case (JStr s)
  with assms show ?thesis
    by (auto simp: normalize_date_def is_iso_date_strftime split: if_splits option.splits)
       (simp add: strftime_def)
qed (use assms in \<open>auto simp: normalize_date_def split: if_splits\<close>)

lemma normalize_date_falsy: "\<not> truthy v \<Longrightarrow> normalize_date v = Inr None"
  by (simp add: normalize_date_def)



subsection \<open>Finite amount errors\<close>

lemma emitted_amount_error:
  assumes "emitted tol gts m"
  shows "\<exists>e. amount_error m = Fin e \<and> 0 \<le> e"
  using assms
proof (cases rule: emitted_cases)
  case unmatched
  from arg_cong [OF unmatched, of amount_error] show ?thesis by (simp add: unmatched_def)
next
  case (matched gt pd gd ds)
  let ?r = "amount_reconcile tol (normalize_amount (get_amount (predicted m)))
              (normalize_amount (get_amount gt))"
  from amount_reconcile_error [of tol "normalize_amount (get_amount (predicted m))"
      "normalize_amount (get_amount gt)"]
  show ?thesis
  proof
    assume "snd ?r = PInf"
    with matched(9) show ?thesis by simp
  next
    assume "\<exists>e. snd ?r = Fin e \<and> 0 \<le> e"
    with matched(9) show ?thesis by auto
  qed
qed

lemma foldl_pf_add_finite:
  assumes "\<forall>x \<in> set xs. \<exists>e. x = Fin e \<and> 0 \<le> e" and "0 \<le> a"
  shows "\<exists>e. foldl pf_add (Fin a) xs = Fin e \<and> 0 \<le> e"
  using assms
proof (induction xs arbitrary: a)
  case Nil
  then show ?case by simp
next
  case (Cons x xs)
  from Cons.prems(1) obtain e where e: "x = Fin e" "0 \<le> e" by auto
  with Cons.prems(2) have "0 \<le> a + e" by simp
  moreover from Cons.prems(1) have "\<forall>x \<in> set xs. \<exists>e. x = Fin e \<and> 0 \<le> e" by simp
  ultimately have "\<exists>r. foldl pf_add (Fin (a + e)) xs = Fin r \<and> 0 \<le> r"
    by (rule Cons.IH [rotated])
  with e show ?case by simp
qed

lemma compute_metrics_mae_finite:
  assumes "\<forall>m \<in> set ms. \<exists>e. amount_error m = Fin e \<and> 0 \<le> e"
  shows "\<exists>mt e. compute_metrics ms n = Inr mt \<and> amount_mae mt = Fin e \<and> 0 \<le> e"
proof (cases "ms = []")
  case True
  then show ?thesis by (simp add: compute_metrics_def zero_metrics_def)
next
  case False
  let ?matched = "filter (\<lambda>m. ground_truth m \<noteq> None) ms"
  from assms have "\<forall>x \<in> set (map amount_error ?matched). \<exists>e. x = Fin e \<and> 0 \<le> e"
    by auto
  from foldl_pf_add_finite [OF this, of 0] obtain s where
    s: "pf_sum (map amount_error ?matched) = Fin s" "0 \<le> s"
    by (auto simp: pf_sum_def)
  show ?thesis
    unfolding compute_metrics_nonempty [OF False] using s by simp
qed


subsection \<open>The range of the metrics\<close>

lemma length_consumed: "length (consumed ms) = length (filter (\<lambda>m. ground_truth m \<noteq> None) ms)"
  by (induction ms) (auto simp: consumed_def split: option.splits)

lemma emitted_description_range:
  assumes "emitted tol gts m"
  shows "0 \<le> description_match m \<and> description_match m \<le> 1"
  using assms
proof (cases rule: emitted_cases)
  case unmatched
  from arg_cong [OF unmatched, of description_match] show ?thesis by (simp add: unmatched_def)
next
  case (matched gt pd gd ds)
  with fuzzy_match_score_range [OF matched(4)] show ?thesis by simp
qed

lemma sum_list_unit_range:
  assumes "\<forall>x \<in> set xs. 0 \<le> f x \<and> f x \<le> (1::real)"
  shows "0 \<le> sum_list (map f xs) \<and> sum_list (map f xs) \<le> real (length xs)"
  using assms by (induction xs) auto

lemma ratio_range:
  fixes a b :: real
  assumes "0 \<le> a" "a \<le> b"
  shows "0 \<le> (if b \<noteq> 0 then a / b else 0) \<and> (if b \<noteq> 0 then a / b else 0) \<le> 1"
  using assms by (auto simp: divide_le_eq_1)

lemma count_ratio_range:
  fixes a k :: nat
  assumes "a \<le> k"
  shows "0 \<le> (if k \<noteq> 0 then real a / real k else 0)
    \<and> (if k \<noteq> 0 then real a / real k else 0) \<le> 1"
  using assms by (auto simp: divide_le_eq_1)

lemma f1_range:
  fixes p r :: real
  assumes "0 \<le> p" "p \<le> 1" "0 \<le> r" "r \<le> 1"
  shows "0 \<le> (if p + r > 0 then 2 * p * r / (p + r) else 0)
    \<and> (if p + r > 0 then 2 * p * r / (p + r) else 0) \<le> 1"
proof (cases "p + r > 0")
  case True
  have "p * r \<le> p * 1" using assms by (intro mult_left_mono) auto
  moreover have "p * r \<le> 1 * r" using assms by (intro mult_right_mono) auto
  ultimately have "2 * p * r \<le> p + r" by simp
  moreover have "0 \<le> 2 * p * r" using assms by simp
  ultimately show ?thesis using True by (simp add: divide_le_eq_1)
next
  case False
  then show ?thesis by simp
qed

lemma metrics_range:
  assumes ms: "ms \<noteq> []"
    and k: "length (filter (\<lambda>m. ground_truth m \<noteq> None) ms) \<le> n"
    and d: "\<forall>m \<in> set ms. 0 \<le> description_match m \<and> description_match m \<le> 1"
    and c: "compute_metrics ms (int n) = Inr mt"
  shows "matched_count mt \<le> length ms \<and> matched_count mt \<le> n
    \<and> 0 \<le> precision mt \<and> precision mt \<le> 1 \<and> 0 \<le> recall mt \<and> recall mt \<le> 1
    \<and> 0 \<le> f1 mt \<and> f1 mt \<le> 1
    \<and> 0 \<le> date_accuracy mt \<and> date_accuracy mt \<le> 1
    \<and> 0 \<le> description_accuracy mt \<and> description_accuracy mt \<le> 1
    \<and> 0 \<le> amount_accuracy mt \<and> amount_accuracy mt \<le> 1"
proof -
  define matched where "matched = filter (\<lambda>m. ground_truth m \<noteq> None) ms"
  define k where "k = length matched"
  define p where "p = real k / real (length ms)"
  define r where "r = (if int n \<noteq> 0 then real k / of_int (int n) else 0)"
  note eq = compute_metrics_nonempty [OF ms, of "int n", folded matched_def, folded k_def,
    folded p_def r_def]
  from c have "Inr mt = compute_metrics ms (int n)" by simp
  then have mt: "mt = \<lparr>matched_count = k, precision = p, recall = r,
          f1 = (if p + r > 0 then 2 * p * r / (p + r) else 0),
          date_accuracy =
            (if k \<noteq> 0 then real (length (filter date_match matched)) / real k else 0),
          description_accuracy =
            (if k \<noteq> 0 then sum_list (map description_match matched) / real k else 0),
          amount_accuracy =
            (if k \<noteq> 0 then real (length (filter amount_match matched)) / real k else 0),
          amount_mae =
            (if k \<noteq> 0
             then (case pf_sum (map amount_error matched) of
                     Fin e \<Rightarrow> Fin (e / real k) | PInf \<Rightarrow> PInf)
             else Fin 0)\<rparr>"
    unfolding eq by (rule Inr_inject)
  have kl: "k \<le> length ms" by (simp add: k_def matched_def)
  have kn: "k \<le> n" using k by (simp add: k_def matched_def)
  have ms0: "length ms \<noteq> 0" using ms by simp
  have pr: "0 \<le> p \<and> p \<le> 1"
    using count_ratio_range [OF kl] ms0 unfolding p_def by simp
  have rr: "0 \<le> r \<and> r \<le> 1"
    using kn unfolding r_def by (auto simp: divide_le_eq_1)
  have fr: "0 \<le> (if p + r > 0 then 2 * p * r / (p + r) else 0)
      \<and> (if p + r > 0 then 2 * p * r / (p + r) else 0) \<le> 1"
    using pr rr by (intro f1_range) simp_all
  have dl: "length (filter date_match matched) \<le> k" by (simp add: k_def)
  have al: "length (filter amount_match matched) \<le> k" by (simp add: k_def)
  note dr = count_ratio_range [OF dl]
  note ar = count_ratio_range [OF al]
  from d have "\<forall>m \<in> set matched. 0 \<le> description_match m \<and> description_match m \<le> 1"
    by (simp add: matched_def)
  from sum_list_unit_range [OF this]
  have "0 \<le> sum_list (map description_match matched)"
    "sum_list (map description_match matched) \<le> real k"
    by (simp_all add: k_def)
  from ratio_range [OF this]
  have er: "0 \<le> (if k \<noteq> 0 then sum_list (map description_match matched) / real k else 0)
      \<and> (if k \<noteq> 0 then sum_list (map description_match matched) / real k else 0) \<le> 1"
    by simp
  show ?thesis
    unfolding mt using kl kn pr rr fr dr er ar by simp
qed


end
